theory Spec2Isabelle
  imports Complex_Main
begin

section \<open>Numbers, errors and the random source\<close>

text \<open>
  The solver of \<^verbatim>\<open>ant_lightning.py\<close> computes with Python floats. They are modelled
  by the real numbers (no rounding, overflow, underflow or NaN); \<^verbatim>\<open>float('inf')\<close>, the
  fee of "no path", is the extra value \<open>PInf\<close>. A Python exception is a value of
  \<open>pyerror\<close>, returned on the left of a sum.
\<close>

datatype pyerror = ZeroDivisionError | TypeError

datatype xfee = Fin real | PInf

text \<open>\<^verbatim>\<open>a < b\<close> and \<^verbatim>\<open>a <= b\<close> on fees that may be \<^verbatim>\<open>float('inf')\<close>.\<close>

fun fee_less :: "xfee \<Rightarrow> xfee \<Rightarrow> bool" where
  "fee_less (Fin a) (Fin b) = (a < b)"
| "fee_less (Fin a) PInf = True"
| "fee_less PInf b = False"

fun fee_le :: "xfee \<Rightarrow> xfee \<Rightarrow> bool" where
  "fee_le (Fin a) (Fin b) = (a \<le> b)"
| "fee_le a PInf = True"
| "fee_le PInf (Fin b) = False"

text \<open>
  The value of a float expression: a float, or a complex number (what \<^verbatim>\<open>**\<close> gives for a
  negative base and a non-integral exponent). Arithmetic converts a float operand to
  complex when the other operand is complex.
\<close>

datatype pynum = PyFloat real | PyComplex complex

fun to_complex :: "pynum \<Rightarrow> complex" where
  "to_complex (PyFloat x) = complex_of_real x"
| "to_complex (PyComplex z) = z"

fun py_add :: "pynum \<Rightarrow> pynum \<Rightarrow> pynum" where
  "py_add (PyFloat x) (PyFloat y) = PyFloat (x + y)"
| "py_add a b = PyComplex (to_complex a + to_complex b)"

fun py_mul :: "pynum \<Rightarrow> pynum \<Rightarrow> pynum" where
  "py_mul (PyFloat x) (PyFloat y) = PyFloat (x * y)"
| "py_mul a b = PyComplex (to_complex a * to_complex b)"

text \<open>\<^verbatim>\<open>a / b\<close>, used only where \<open>b\<close> has been tested to be non-zero.\<close>

fun py_div :: "pynum \<Rightarrow> pynum \<Rightarrow> pynum" where
  "py_div (PyFloat x) (PyFloat y) = PyFloat (x / y)"
| "py_div a b = PyComplex (to_complex a / to_complex b)"

fun py_is_zero :: "pynum \<Rightarrow> bool" where
  "py_is_zero (PyFloat x) = (x = 0)"
| "py_is_zero (PyComplex z) = (z = 0)"

text \<open>
  \<^verbatim>\<open>x ** y\<close> on floats: \<^verbatim>\<open>x ** 0.0\<close> is \<^verbatim>\<open>1.0\<close> for every \<open>x\<close>; \<^verbatim>\<open>0.0 ** y\<close> raises
  ZeroDivisionError for negative \<open>y\<close>; a negative base with an integral exponent is a float,
  with any other exponent the complex number of modulus \<open>|x| ** y\<close> and argument \<open>pi * y\<close>.
\<close>

definition py_pow :: "real \<Rightarrow> real \<Rightarrow> pyerror + pynum" where
  "py_pow x y =
     (if y = 0 then Inr (PyFloat 1)
      else if x = 0 then (if y < 0 then Inl ZeroDivisionError else Inr (PyFloat 0))
      else if 0 < x then Inr (PyFloat (x powr y))
      else if y = of_int \<lfloor>y\<rfloor> then Inr (PyFloat (x powi \<lfloor>y\<rfloor>))
      else Inr (PyComplex (complex_of_real (\<bar>x\<bar> powr y) * cis (pi * y))))"

text \<open>
  The random source: the sequence of values that successive calls of
  \<^verbatim>\<open>random.uniform(0, 1)\<close> return, fixed by the seed. A call takes the head and leaves
  the rest.
\<close>

type_synonym rng = "nat \<Rightarrow> real"

definition uniform :: "rng \<Rightarrow> real \<times> rng" where
  "uniform g = (g 0, \<lambda>n. g (Suc n))"

section \<open>The topology: MockChannel and MockNetworkGraph\<close>

type_synonym node = string

record channel =
  source :: node
  destination :: node
  liquidity :: real
  base_fee :: real
  fee_rate :: real

definition calculate_fee :: "channel \<Rightarrow> real \<Rightarrow> real" where
  "calculate_fee ch amount = base_fee ch + amount * fee_rate ch"

text \<open>
  \<open>nodes\<close> is the node set in the order \<^verbatim>\<open>list(self.nodes)\<close> enumerates it (an order
  Python leaves unspecified); \<open>channels\<close> is the dictionary from a source node to its list
  of channels.
\<close>

record network_graph =
  nodes :: "node list"
  channels :: "node \<rightharpoonup> channel list"

definition empty_graph :: network_graph where
  "empty_graph = \<lparr>nodes = [], channels = Map.empty\<rparr>"

definition add_node :: "node \<Rightarrow> node list \<Rightarrow> node list" where
  "add_node n ns = (if n \<in> set ns then ns else ns @ [n])"

definition add_channel ::
  "network_graph \<Rightarrow> node \<Rightarrow> node \<Rightarrow> real \<Rightarrow> real \<Rightarrow> real \<Rightarrow> network_graph" where
  "add_channel g src dest liq bfee rate =
     (let ch = \<lparr>source = src, destination = dest, liquidity = liq, base_fee = bfee,
                fee_rate = rate\<rparr>;
          old = (case channels g src of None \<Rightarrow> [] | Some cs \<Rightarrow> cs)
      in \<lparr>nodes = add_node dest (add_node src (nodes g)),
          channels = (channels g)(src \<mapsto> old @ [ch])\<rparr>)"

definition get_all_nodes :: "network_graph \<Rightarrow> node list" where
  "get_all_nodes g = nodes g"

definition get_outgoing_channels :: "network_graph \<Rightarrow> node \<Rightarrow> channel list" where
  "get_outgoing_channels g n = (case channels g n of None \<Rightarrow> [] | Some cs \<Rightarrow> cs)"

section \<open>The solver: LightningACO\<close>

type_synonym edge = "node \<times> node"

record solver =
  graph :: network_graph
  num_ants :: int
  iterations :: int
  alpha :: real
  beta :: real
  evaporation_rate :: real
  Q :: real
  pheromones :: "edge \<rightharpoonup> real"
  best_path :: "node list option"
  best_path_fee :: xfee

text \<open>\<^verbatim>\<open>__init__\<close>\<close>

definition init_solver ::
  "network_graph \<Rightarrow> int \<Rightarrow> int \<Rightarrow> real \<Rightarrow> real \<Rightarrow> real \<Rightarrow> real \<Rightarrow> solver" where
  "init_solver g ants iters a b evap q =
     \<lparr>graph = g, num_ants = ants, iterations = iters, alpha = a, beta = b,
      evaporation_rate = evap, Q = q, pheromones = Map.empty, best_path = None,
      best_path_fee = PInf\<rparr>"

text \<open>\<^verbatim>\<open>_initialize_pheromones\<close>: every channel of every node gets level 1.0.\<close>

definition init_channels :: "channel list \<Rightarrow> (edge \<rightharpoonup> real) \<Rightarrow> (edge \<rightharpoonup> real)" where
  "init_channels chs ph = fold (\<lambda>ch m. m((source ch, destination ch) \<mapsto> 1)) chs ph"

definition initialize_pheromones :: "solver \<Rightarrow> solver" where
  "initialize_pheromones s =
     s\<lparr>pheromones :=
        fold (\<lambda>n m. init_channels (get_outgoing_channels (graph s) n) m)
          (get_all_nodes (graph s)) (pheromones s)\<rparr>"

text \<open>
  \<^verbatim>\<open>_select_next_channel\<close>, first loop: the weights of the feasible channels, in the order
  of the channel list, and their sum.
\<close>

fun weigh ::
  "solver \<Rightarrow> node \<Rightarrow> node list \<Rightarrow> real \<Rightarrow> channel list \<Rightarrow> (channel \<times> pynum) list \<Rightarrow> pynum
     \<Rightarrow> pyerror + ((channel \<times> pynum) list \<times> pynum)" where
  "weigh s current_node visited_nodes payment_amount [] probabilities total_prob =
     Inr (probabilities, total_prob)"
| "weigh s current_node visited_nodes payment_amount (ch # chs) probabilities total_prob =
     (let next_node = destination ch in
      if next_node \<notin> set visited_nodes \<and> liquidity ch \<ge> payment_amount then
        (let fee = calculate_fee ch payment_amount in
         if fee + 1 / 10 ^ 9 = 0 then Inl ZeroDivisionError
         else case py_pow (1 / (fee + 1 / 10 ^ 9)) (beta s) of
           Inl e \<Rightarrow> Inl e
         | Inr heuristic \<Rightarrow>
            (let pheromone_level =
                   (case pheromones s (current_node, next_node) of
                      None \<Rightarrow> 1 | Some v \<Rightarrow> v)
             in case py_pow pheromone_level (alpha s) of
               Inl e \<Rightarrow> Inl e
             | Inr pheromone \<Rightarrow>
                (let prob = py_mul pheromone heuristic
                 in weigh s current_node visited_nodes payment_amount chs
                      (probabilities @ [(ch, prob)]) (py_add total_prob prob))))
      else weigh s current_node visited_nodes payment_amount chs probabilities total_prob)"

text \<open>
  The roulette wheel: the first channel whose cumulative probability reaches \<open>r\<close>;
  comparing \<open>r\<close> with a complex number raises TypeError. \<open>None\<close> when the loop ends
  without a return.
\<close>

fun roulette :: "real \<Rightarrow> pynum \<Rightarrow> (channel \<times> pynum) list \<Rightarrow> pyerror + channel option" where
  "roulette r cumulative_prob [] = Inr None"
| "roulette r cumulative_prob ((ch, prob) # rest) =
     (case py_add cumulative_prob prob of
        PyComplex z \<Rightarrow> Inl TypeError
      | PyFloat c \<Rightarrow> if r \<le> c then Inr (Some ch) else roulette r (PyFloat c) rest)"

definition select_next_channel ::
  "solver \<Rightarrow> node \<Rightarrow> node list \<Rightarrow> real \<Rightarrow> rng \<Rightarrow> pyerror + (channel option \<times> rng)" where
  "select_next_channel s current_node visited_nodes payment_amount g =
     (case weigh s current_node visited_nodes payment_amount
             (get_outgoing_channels (graph s) current_node) [] (PyFloat 0) of
        Inl e \<Rightarrow> Inl e
      | Inr (probabilities, total_prob) \<Rightarrow>
          if py_is_zero total_prob then Inr (None, g)
          else
            (let normalized = map (\<lambda>(ch, prob). (ch, py_div prob total_prob)) probabilities;
                 (r, g') = uniform g
             in case roulette r (PyFloat 0) normalized of
                  Inl e \<Rightarrow> Inl e
                | Inr (Some ch) \<Rightarrow> Inr (Some ch, g')
                | Inr None \<Rightarrow> Inr (Some (fst (last normalized)), g')))"

text \<open>
  \<^verbatim>\<open>_construct_path\<close>: the while loop, then the final test. The result is the pair
  \<^verbatim>\<open>(path, total_fee)\<close>, with \<open>(None, PInf)\<close> for \<^verbatim>\<open>(None, float('inf'))\<close>.
\<close>

function construct_loop ::
  "solver \<Rightarrow> node \<Rightarrow> real \<Rightarrow> nat \<Rightarrow> node list \<Rightarrow> node \<Rightarrow> real \<Rightarrow> rng
     \<Rightarrow> pyerror + ((node list option \<times> xfee) \<times> rng)" where
  "construct_loop s end_node payment_amount max_path_length path current_node total_fee g =
     (if current_node \<noteq> end_node \<and> length path < max_path_length then
        (case select_next_channel s current_node path payment_amount g of
           Inl e \<Rightarrow> Inl e
         | Inr (None, g') \<Rightarrow> Inr ((None, PInf), g')
         | Inr (Some next_channel, g') \<Rightarrow>
             construct_loop s end_node payment_amount max_path_length
               (path @ [destination next_channel]) (destination next_channel)
               (total_fee + calculate_fee next_channel payment_amount) g')
      else if current_node = end_node then Inr ((Some path, Fin total_fee), g)
      else Inr ((None, PInf), g))"
  by pat_completeness auto
termination
  by (relation "measure (\<lambda>(s, e, a, m, p, c, t, g). m - length p)") auto

definition construct_path ::
  "solver \<Rightarrow> node \<Rightarrow> node \<Rightarrow> real \<Rightarrow> rng \<Rightarrow> pyerror + ((node list option \<times> xfee) \<times> rng)" where
  "construct_path s start_node end_node payment_amount g =
     construct_loop s end_node payment_amount (length (get_all_nodes (graph s)))
       [start_node] start_node 0 g"

text \<open>
  \<^verbatim>\<open>_update_pheromones\<close>: evaporation of every stored level, then the deposit of
  \<^verbatim>\<open>Q / total_fee\<close> on every edge of every path of the round.
\<close>

definition evaporate :: "real \<Rightarrow> (edge \<rightharpoonup> real) \<Rightarrow> (edge \<rightharpoonup> real)" where
  "evaporate rate ph = (\<lambda>e. map_option (\<lambda>v. v * (1 - rate)) (ph e))"

fun deposit_path :: "(edge \<rightharpoonup> real) \<Rightarrow> node list \<Rightarrow> real \<Rightarrow> (edge \<rightharpoonup> real)" where
  "deposit_path ph (source_node # dest_node # rest) pheromone_deposit =
     deposit_path
       (ph((source_node, dest_node) \<mapsto>
          (case ph (source_node, dest_node) of None \<Rightarrow> 0 | Some v \<Rightarrow> v) + pheromone_deposit))
       (dest_node # rest) pheromone_deposit"
| "deposit_path ph path pheromone_deposit = ph"

fun deposit_all ::
  "real \<Rightarrow> (edge \<rightharpoonup> real) \<Rightarrow> (node list \<times> xfee) list \<Rightarrow> pyerror + (edge \<rightharpoonup> real)" where
  "deposit_all q ph [] = Inr ph"
| "deposit_all q ph ((path, total_fee) # rest) =
     (case total_fee of
        Fin f \<Rightarrow> if f = 0 then Inl ZeroDivisionError
                 else deposit_all q (deposit_path ph path (q / f)) rest
      | PInf \<Rightarrow> deposit_all q (deposit_path ph path 0) rest)"

definition update_pheromones :: "solver \<Rightarrow> (node list \<times> xfee) list \<Rightarrow> pyerror + solver" where
  "update_pheromones s all_paths =
     (case deposit_all (Q s) (evaporate (evaporation_rate s) (pheromones s)) all_paths of
        Inl e \<Rightarrow> Inl e
      | Inr ph \<Rightarrow> Inr (s\<lparr>pheromones := ph\<rparr>))"

text \<open>
  \<^verbatim>\<open>solve\<close>: the loop over the ants of one round, the loop over the rounds, and the
  call itself. \<^verbatim>\<open>range(n)\<close> is empty for \<open>n \<le> 0\<close>. The progress line printed after
  each round changes nothing and is left out.
\<close>

fun run_ants ::
  "nat \<Rightarrow> solver \<Rightarrow> node \<Rightarrow> node \<Rightarrow> real \<Rightarrow> (node list \<times> xfee) list \<Rightarrow> rng
     \<Rightarrow> pyerror + (solver \<times> (node list \<times> xfee) list \<times> rng)" where
  "run_ants 0 s start_node end_node payment_amount all_paths g = Inr (s, all_paths, g)"
| "run_ants (Suc n) s start_node end_node payment_amount all_paths g =
     (case construct_path s start_node end_node payment_amount g of
        Inl e \<Rightarrow> Inl e
      | Inr ((None, total_fee), g') \<Rightarrow>
          run_ants n s start_node end_node payment_amount all_paths g'
      | Inr ((Some path, total_fee), g') \<Rightarrow>
          if path \<noteq> [] then
            run_ants n
              (if fee_less total_fee (best_path_fee s)
               then s\<lparr>best_path := Some path, best_path_fee := total_fee\<rparr> else s)
              start_node end_node payment_amount (all_paths @ [(path, total_fee)]) g'
          else run_ants n s start_node end_node payment_amount all_paths g')"

definition run_iteration ::
  "solver \<Rightarrow> node \<Rightarrow> node \<Rightarrow> real \<Rightarrow> rng \<Rightarrow> pyerror + (solver \<times> rng)" where
  "run_iteration s start_node end_node payment_amount g =
     (case run_ants (nat (num_ants s)) s start_node end_node payment_amount [] g of
        Inl e \<Rightarrow> Inl e
      | Inr (s1, all_paths, g1) \<Rightarrow>
          (case update_pheromones s1 all_paths of
             Inl e \<Rightarrow> Inl e
           | Inr s2 \<Rightarrow> Inr (s2, g1)))"

fun run_iterations ::
  "nat \<Rightarrow> solver \<Rightarrow> node \<Rightarrow> node \<Rightarrow> real \<Rightarrow> rng \<Rightarrow> pyerror + (solver \<times> rng)" where
  "run_iterations 0 s start_node end_node payment_amount g = Inr (s, g)"
| "run_iterations (Suc n) s start_node end_node payment_amount g =
     (case run_iteration s start_node end_node payment_amount g of
        Inl e \<Rightarrow> Inl e
      | Inr (s', g') \<Rightarrow> run_iterations n s' start_node end_node payment_amount g')"

text \<open>
  The result of \<^verbatim>\<open>solve\<close> is the returned pair \<^verbatim>\<open>(best_path, best_path_fee)\<close>,
  together with the solver object and the random source as the call leaves them. An
  exception ends the call: the result is the exception alone, and the state in which it
  leaves the solver object is not modelled.
\<close>

definition solve ::
  "solver \<Rightarrow> node \<Rightarrow> node \<Rightarrow> real \<Rightarrow> rng
     \<Rightarrow> pyerror + ((node list option \<times> xfee) \<times> solver \<times> rng)" where
  "solve s start_node end_node payment_amount g =
     (case run_iterations (nat (iterations s)) (initialize_pheromones s)
             start_node end_node payment_amount g of
        Inl e \<Rightarrow> Inl e
      | Inr (s', g') \<Rightarrow> Inr ((best_path s', best_path_fee s'), s', g'))"

section \<open>Definitions used to state the properties\<close>

text \<open>
  The two operations of the pheromone store, as \<^verbatim>\<open>_update_pheromones\<close> performs them:
  the decay of every stored level, and the deposit of an amount on every edge of a path.
  \<open>valid_op\<close> asks for a rate in [0, 1] and a non-negative amount, \<open>strict_op\<close> for a
  rate in [0, 1) and a positive amount.
\<close>

datatype store_op = Decay real | Deposit "node list" real

fun apply_op :: "store_op \<Rightarrow> (edge \<rightharpoonup> real) \<Rightarrow> (edge \<rightharpoonup> real)" where
  "apply_op (Decay rate) ph = evaporate rate ph"
| "apply_op (Deposit path amount) ph = deposit_path ph path amount"

fun valid_op :: "store_op \<Rightarrow> bool" where
  "valid_op (Decay rate) = (0 \<le> rate \<and> rate \<le> 1)"
| "valid_op (Deposit path amount) = (0 \<le> amount)"


definition apply_ops :: "store_op list \<Rightarrow> (edge \<rightharpoonup> real) \<Rightarrow> (edge \<rightharpoonup> real)" where
  "apply_ops ops ph = fold apply_op ops ph"



text \<open>
  The operations that one call of \<^verbatim>\<open>_update_pheromones\<close> performs.
\<close>

definition round_ops :: "solver \<Rightarrow> (node list \<times> xfee) list \<Rightarrow> store_op list" where
  "round_ops s all_paths =
     Decay (evaporation_rate s) #
     map (\<lambda>(path, total_fee).
            Deposit path (case total_fee of Fin f \<Rightarrow> Q s / f | PInf \<Rightarrow> 0)) all_paths"

text \<open>
  The test of \<^verbatim>\<open>_select_next_channel\<close> on a channel (destination not visited, enough
  liquidity), the weight it computes for a channel that passes, and the pheromone level it
  reads (1.0 for an edge the store does not hold).
\<close>

definition feasible :: "node list \<Rightarrow> real \<Rightarrow> channel \<Rightarrow> bool" where
  "feasible visited_nodes payment_amount ch =
     (destination ch \<notin> set visited_nodes \<and> liquidity ch \<ge> payment_amount)"

definition edge_weight :: "solver \<Rightarrow> node \<Rightarrow> real \<Rightarrow> channel \<Rightarrow> pyerror + pynum" where
  "edge_weight s current_node payment_amount ch =
     (let fee = calculate_fee ch payment_amount in
      if fee + 1 / 10 ^ 9 = 0 then Inl ZeroDivisionError
      else case py_pow (1 / (fee + 1 / 10 ^ 9)) (beta s) of
        Inl e \<Rightarrow> Inl e
      | Inr heuristic \<Rightarrow>
         (case py_pow (case pheromones s (current_node, destination ch) of
                         None \<Rightarrow> 1 | Some v \<Rightarrow> v) (alpha s) of
            Inl e \<Rightarrow> Inl e
          | Inr pheromone \<Rightarrow> Inr (py_mul pheromone heuristic)))"

definition level_of :: "solver \<Rightarrow> node \<Rightarrow> channel \<Rightarrow> real" where
  "level_of s current_node ch =
     (case pheromones s (current_node, destination ch) of None \<Rightarrow> 1 | Some v \<Rightarrow> v)"

definition pos_float :: "pynum \<Rightarrow> bool" where
  "pos_float p = (case p of PyFloat w \<Rightarrow> 0 < w | PyComplex z \<Rightarrow> False)"

text \<open>
  A path whose consecutive nodes are joined by a channel of the topology with enough
  liquidity; a valid path from the start node to the end node of at most \<open>bound\<close> nodes.
\<close>

fun edges_ok :: "network_graph \<Rightarrow> real \<Rightarrow> node list \<Rightarrow> bool" where
  "edges_ok g amt (a # b # rest) =
     ((\<exists>ch \<in> set (get_outgoing_channels g a). destination ch = b \<and> amt \<le> liquidity ch)
      \<and> edges_ok g amt (b # rest))"
| "edges_ok g amt p = True"

definition valid_path :: "network_graph \<Rightarrow> real \<Rightarrow> node \<Rightarrow> node \<Rightarrow> nat \<Rightarrow> node list \<Rightarrow> bool" where
  "valid_path g amt start_node end_node bound p =
     (edges_ok g amt p \<and> distinct p \<and> length p \<le> bound
      \<and> hd p = start_node \<and> last p = end_node)"

text \<open>
  What a call leaves unchanged in the solver object; the pair a call of \<^verbatim>\<open>solve\<close>
  returns (or the exception it raises); two calls of \<^verbatim>\<open>solve\<close> on the same solver
  object, one after the other.
\<close>

definition same_config :: "solver \<Rightarrow> solver \<Rightarrow> bool" where
  "same_config s s' =
     (graph s' = graph s \<and> num_ants s' = num_ants s \<and> iterations s' = iterations s
      \<and> alpha s' = alpha s \<and> beta s' = beta s
      \<and> evaporation_rate s' = evaporation_rate s \<and> Q s' = Q s)"

definition result_of :: "pyerror + ((node list option \<times> xfee) \<times> solver \<times> rng)
    \<Rightarrow> pyerror + (node list option \<times> xfee)" where
  "result_of r = (case r of Inl e \<Rightarrow> Inl e | Inr (res, s, g) \<Rightarrow> Inr res)"

definition solve_twice ::
  "solver \<Rightarrow> node \<Rightarrow> node \<Rightarrow> real \<Rightarrow> node \<Rightarrow> node \<Rightarrow> real \<Rightarrow> rng
     \<Rightarrow> pyerror + ((node list option \<times> xfee) \<times> (node list option \<times> xfee))" where
  "solve_twice s start1 end1 amount1 start2 end2 amount2 g =
     (case solve s start1 end1 amount1 g of
        Inl e \<Rightarrow> Inl e
      | Inr (res1, s1, g1) \<Rightarrow>
          (case solve s1 start2 end2 amount2 g1 of
             Inl e \<Rightarrow> Inl e
           | Inr (res2, s2, g2) \<Rightarrow> Inr (res1, res2)))"

text \<open>
  The same solver with the nodes of its topology enumerated in another order, and the
  results of the loops carried over to it.
\<close>

definition relist :: "node list \<Rightarrow> solver \<Rightarrow> solver" where
  "relist ns s = s\<lparr>graph := (graph s)\<lparr>nodes := ns\<rparr>\<rparr>"

definition relist_ants ::
  "node list \<Rightarrow> pyerror + (solver \<times> (node list \<times> xfee) list \<times> rng)
     \<Rightarrow> pyerror + (solver \<times> (node list \<times> xfee) list \<times> rng)" where
  "relist_ants ns r = (case r of Inl e \<Rightarrow> Inl e | Inr (s, ap, g) \<Rightarrow> Inr (relist ns s, ap, g))"

definition relist_run ::
  "node list \<Rightarrow> pyerror + (solver \<times> rng) \<Rightarrow> pyerror + (solver \<times> rng)" where
  "relist_run ns r = (case r of Inl e \<Rightarrow> Inl e | Inr (s, g) \<Rightarrow> Inr (relist ns s, g))"

text \<open>
  Example inputs: the topology with the one channel A \<rightarrow> B (liquidity 1000, fee
  \<open>bfee + amount * rate\<close>), a random source that always returns the same value, and the
  solver on that topology after one round with evaporation rate 1 in which no ant found a
  path.
\<close>

definition channel_AB :: "real \<Rightarrow> real \<Rightarrow> channel" where
  "channel_AB bfee rate = \<lparr>source = ''A'', destination = ''B'', liquidity = 1000,
                            base_fee = bfee, fee_rate = rate\<rparr>"

definition two_node_graph :: "real \<Rightarrow> real \<Rightarrow> network_graph" where
  "two_node_graph bfee rate = add_channel empty_graph ''A'' ''B'' 1000 bfee rate"

definition const_rng :: "real \<Rightarrow> rng" where
  "const_rng r = (\<lambda>n. r)"


section \<open>Fees and the example topology\<close>

lemma fee_le_refl: "fee_le a a"
  by (cases a) simp_all

lemma fee_le_trans: "fee_le a b \<Longrightarrow> fee_le b c \<Longrightarrow> fee_le a c"
  by (cases a; cases b; cases c) simp_all

lemma fee_less_le: "fee_less a b \<Longrightarrow> fee_le a b"
  by (cases a; cases b) simp_all

lemma uniform_const_rng: "uniform (const_rng r) = (r, const_rng r)"
  by (simp add: uniform_def const_rng_def)

lemma two_node_graph_nodes: "get_all_nodes (two_node_graph bfee rate) = [''A'', ''B'']"
  by (simp add: two_node_graph_def add_channel_def empty_graph_def add_node_def
      get_all_nodes_def)

lemma two_node_graph_out_A:
  "get_outgoing_channels (two_node_graph bfee rate) ''A'' = [channel_AB bfee rate]"
  by (simp add: two_node_graph_def add_channel_def empty_graph_def get_outgoing_channels_def
      channel_AB_def)

lemma two_node_graph_out_B: "get_outgoing_channels (two_node_graph bfee rate) ''B'' = []"
  by (simp add: two_node_graph_def add_channel_def empty_graph_def get_outgoing_channels_def)

lemma two_node_graph_init:
  "graph s = two_node_graph bfee rate \<Longrightarrow>
     pheromones (initialize_pheromones s) = (pheromones s)((''A'', ''B'') \<mapsto> 1)"
  by (simp add: initialize_pheromones_def two_node_graph_nodes two_node_graph_out_A
      two_node_graph_out_B init_channels_def channel_AB_def)

lemma two_node_graph_fresh:
  "pheromones (initialize_pheromones (init_solver (two_node_graph bfee rate) ants iters a b evap q)) =
     [(''A'', ''B'') \<mapsto> 1]"
  by (subst two_node_graph_init [of _ bfee rate]) (simp_all add: init_solver_def)

section \<open>The pheromone store\<close>












lemma update_pheromones_no_paths:
  "update_pheromones s [] = Inr (s\<lparr>pheromones := evaporate (evaporation_rate s) (pheromones s)\<rparr>)"
  by (simp add: update_pheromones_def)

lemma update_pheromones_best:
  "update_pheromones s ap = Inr s' \<Longrightarrow>
     best_path_fee s' = best_path_fee s \<and> best_path s' = best_path s"
  by (auto simp: update_pheromones_def split: sum.splits)

lemma deposit_all_as_ops:
  "deposit_all q ph all_paths = Inr ph' \<Longrightarrow>
     ph' = fold apply_op
             (map (\<lambda>(path, total_fee).
                     Deposit path (case total_fee of Fin f \<Rightarrow> q / f | PInf \<Rightarrow> 0)) all_paths) ph"
proof (induction all_paths arbitrary: ph)
  case Nil then show ?case by simp
next
  case (Cons a rest)
  obtain path total_fee where a: "a = (path, total_fee)" by (cases a)
  show ?case
  proof (cases total_fee)
    case (Fin f)
    with Cons.prems a have "deposit_all q (deposit_path ph path (q / f)) rest = Inr ph'"
      by (simp split: if_splits)
    from Cons.IH [OF this] a Fin show ?thesis by simp
  next
    case PInf
    with Cons.prems a have "deposit_all q (deposit_path ph path 0) rest = Inr ph'" by simp
    from Cons.IH [OF this] a PInf show ?thesis by simp
  qed
qed

lemma update_pheromones_as_ops:
  "update_pheromones s all_paths = Inr s' \<Longrightarrow>
     pheromones s' = apply_ops (round_ops s all_paths) (pheromones s)"
  by (auto simp: update_pheromones_def apply_ops_def round_ops_def
      split: sum.splits dest!: deposit_all_as_ops)

lemma round_ops_valid:
  assumes "0 \<le> evaporation_rate s" and "evaporation_rate s \<le> 1" and "0 \<le> Q s"
    and "list_all (\<lambda>(path, total_fee). fee_le (Fin 0) total_fee) all_paths"
  shows "list_all valid_op (round_ops s all_paths)"
  using assms(4)
  by (induction all_paths) (auto simp: round_ops_def assms(1,2,3) split: xfee.splits)



section \<open>Edge selection\<close>

lemma weigh_skip:
  "\<not> feasible vis amt ch \<Longrightarrow>
     weigh s cur vis amt (ch # chs) probs tot = weigh s cur vis amt chs probs tot"
  unfolding feasible_def by (cases "destination ch \<in> set vis") simp_all

lemma weigh_take:
  "feasible vis amt ch \<Longrightarrow>
     weigh s cur vis amt (ch # chs) probs tot =
       (case edge_weight s cur amt ch of
          Inl e \<Rightarrow> Inl e
        | Inr prob \<Rightarrow> weigh s cur vis amt chs (probs @ [(ch, prob)]) (py_add tot prob))"
  unfolding feasible_def edge_weight_def by (simp add: Let_def split: sum.splits)

lemma weigh_sound:
  "weigh s cur vis amt chs probs tot = Inr (probs', tot') \<Longrightarrow>
     fst ` set probs' \<subseteq> fst ` set probs \<union> {ch \<in> set chs. feasible vis amt ch}"
proof (induction chs arbitrary: probs tot)
  case Nil then show ?case by auto
next
  case (Cons ch chs)
  show ?case
  proof (cases "feasible vis amt ch")
    case False
    with Cons.prems have "weigh s cur vis amt chs probs tot = Inr (probs', tot')"
      by (simp add: weigh_skip del: weigh.simps)
    from Cons.IH [OF this] show ?thesis by auto
  next
    case True
    with Cons.prems obtain w where
      "weigh s cur vis amt chs (probs @ [(ch, w)]) (py_add tot w) = Inr (probs', tot')"
      by (auto simp: weigh_take simp del: weigh.simps split: sum.splits)
    from Cons.IH [OF this] True show ?thesis by auto
  qed
qed

lemma weigh_nonempty:
  "weigh s cur vis amt chs probs tot = Inr (probs', tot') \<Longrightarrow>
     probs \<noteq> [] \<or> py_is_zero tot \<Longrightarrow> probs' \<noteq> [] \<or> py_is_zero tot'"
proof (induction chs arbitrary: probs tot)
  case Nil then show ?case by auto
next
  case (Cons ch chs)
  show ?case
  proof (cases "feasible vis amt ch")
    case False
    with Cons.prems(1) have "weigh s cur vis amt chs probs tot = Inr (probs', tot')"
      by (simp add: weigh_skip del: weigh.simps)
    from Cons.IH [OF this Cons.prems(2)] show ?thesis .
  next
    case True
    with Cons.prems(1) obtain w where
      "weigh s cur vis amt chs (probs @ [(ch, w)]) (py_add tot w) = Inr (probs', tot')"
      by (auto simp: weigh_take simp del: weigh.simps split: sum.splits)
    from Cons.IH [OF this] show ?thesis by simp
  qed
qed

lemma roulette_sound: "roulette r c ps = Inr (Some ch) \<Longrightarrow> ch \<in> fst ` set ps"
  by (induction r c ps rule: roulette.induct) (auto split: pynum.splits if_splits)

lemma select_next_channel_sound:
  assumes "select_next_channel s cur vis amt g = Inr (Some ch, g')"
  shows "ch \<in> set (get_outgoing_channels (graph s) cur) \<and> feasible vis amt ch"
proof -
  from assms obtain probs tot where
    w: "weigh s cur vis amt (get_outgoing_channels (graph s) cur) [] (PyFloat 0) = Inr (probs, tot)"
    and nz: "\<not> py_is_zero tot"
    by (auto simp: select_next_channel_def split: sum.splits if_splits)
  let ?norm = "map (\<lambda>(ch, prob). (ch, py_div prob tot)) probs"
  have fst_norm: "fst ` set ?norm = fst ` set probs" by force
  from weigh_nonempty [OF w] nz have ne: "probs \<noteq> []" by auto
  from assms w nz have
    "roulette (fst (uniform g)) (PyFloat 0) ?norm = Inr (Some ch) \<or> ch = fst (last ?norm)"
    by (auto simp: select_next_channel_def Let_def split: sum.splits prod.splits option.splits)
  then have "ch \<in> fst ` set ?norm"
  proof
    assume "roulette (fst (uniform g)) (PyFloat 0) ?norm = Inr (Some ch)"
    then show ?thesis by (rule roulette_sound)
  next
    assume "ch = fst (last ?norm)"
    moreover from ne have "?norm \<noteq> []" by simp
    ultimately show ?thesis using last_in_set by blast
  qed
  with fst_norm have "ch \<in> fst ` set probs" by simp
  with weigh_sound [OF w] show ?thesis by auto
qed

lemma py_pow_pos: "0 < x \<Longrightarrow> \<exists>w. py_pow x y = Inr (PyFloat w) \<and> 0 < w"
  by (simp add: py_pow_def)

lemma edge_weight_pos:
  assumes "0 < level_of s cur ch" and "0 < calculate_fee ch amt + 1 / 10 ^ 9"
  shows "\<exists>w. edge_weight s cur amt ch = Inr (PyFloat w) \<and> 0 < w"
proof -
  from assms(2) have "0 < 1 / (calculate_fee ch amt + 1 / 10 ^ 9)" by simp
  from py_pow_pos [OF this] obtain h where
    h: "py_pow (1 / (calculate_fee ch amt + 1 / 10 ^ 9)) (beta s) = Inr (PyFloat h)" "0 < h"
    by blast
  from py_pow_pos [OF assms(1)] obtain q where
    q: "py_pow (level_of s cur ch) (alpha s) = Inr (PyFloat q)" "0 < q" by blast
  from assms(2) h q show ?thesis
    by (simp add: edge_weight_def Let_def level_of_def)
qed

lemma pos_floatE: "pos_float p \<Longrightarrow> \<exists>w. p = PyFloat w \<and> 0 < w"
  by (cases p) (simp_all add: pos_float_def)

lemma weigh_pos:
  assumes "\<And>ch. ch \<in> set chs \<Longrightarrow> feasible vis amt ch \<Longrightarrow>
             0 < level_of s cur ch \<and> 0 < calculate_fee ch amt + 1 / 10 ^ 9"
    and "list_all (\<lambda>(c, p). pos_float p) probs"
    and "0 \<le> t" and "probs \<noteq> [] \<Longrightarrow> 0 < t"
  shows "\<exists>probs' t'. weigh s cur vis amt chs probs (PyFloat t) = Inr (probs', PyFloat t')
           \<and> list_all (\<lambda>(c, p). pos_float p) probs' \<and> 0 \<le> t'
           \<and> (probs' \<noteq> [] \<longrightarrow> 0 < t')
           \<and> (probs \<noteq> [] \<or> (\<exists>ch \<in> set chs. feasible vis amt ch) \<longrightarrow> probs' \<noteq> [])"
  using assms
proof (induction chs arbitrary: probs t)
  case Nil
  then show ?case by auto
next
  case (Cons ch chs)
  have rest: "\<And>c. c \<in> set chs \<Longrightarrow> feasible vis amt c \<Longrightarrow>
             0 < level_of s cur c \<and> 0 < calculate_fee c amt + 1 / 10 ^ 9"
    using Cons.prems(1) by simp
  show ?case
  proof (cases "feasible vis amt ch")
    case False
    from Cons.IH [OF rest Cons.prems(2,3,4)] False show ?thesis
      by (simp add: weigh_skip del: weigh.simps)
  next
    case True
    with Cons.prems(1) [of ch] have "0 < level_of s cur ch"
      "0 < calculate_fee ch amt + 1 / 10 ^ 9" by simp_all
    from edge_weight_pos [OF this] obtain w where
      w: "edge_weight s cur amt ch = Inr (PyFloat w)" "0 < w" by blast
    have a: "list_all (\<lambda>(c, p). pos_float p) (probs @ [(ch, PyFloat w)])"
      using Cons.prems(2) w(2) by (simp add: pos_float_def)
    have b: "0 \<le> t + w" "probs @ [(ch, PyFloat w)] \<noteq> [] \<Longrightarrow> 0 < t + w"
      using Cons.prems(3) w(2) by simp_all
    from Cons.IH [OF rest a b] True w show ?thesis
      by (simp add: weigh_take del: weigh.simps)
  qed
qed

lemma roulette_floats:
  "list_all (\<lambda>(c, p). \<exists>w. p = PyFloat w) ps \<Longrightarrow> \<exists>x. roulette r (PyFloat c) ps = Inr x"
proof (induction ps arbitrary: c)
  case Nil then show ?case by simp
next
  case (Cons a ps)
  obtain ch p where a: "a = (ch, p)" by (cases a)
  with Cons.prems obtain w where w: "p = PyFloat w" by auto
  from Cons.prems have "list_all (\<lambda>(c, p). \<exists>w. p = PyFloat w) ps" by simp
  from Cons.IH [OF this, of "c + w"] a w show ?case by simp
qed

lemma select_returns_feasible:
  assumes feas: "\<exists>ch \<in> set (get_outgoing_channels (graph s) cur). feasible vis amt ch"
    and pos: "\<forall>ch \<in> set (get_outgoing_channels (graph s) cur). feasible vis amt ch \<longrightarrow>
               0 < level_of s cur ch \<and> 0 < calculate_fee ch amt + 1 / 10 ^ 9"
  shows "\<exists>ch. select_next_channel s cur vis amt g = Inr (Some ch, snd (uniform g))
           \<and> ch \<in> set (get_outgoing_channels (graph s) cur) \<and> feasible vis amt ch"
proof -
  let ?chs = "get_outgoing_channels (graph s) cur"
  have "\<exists>probs' t'. weigh s cur vis amt ?chs [] (PyFloat 0) = Inr (probs', PyFloat t')
           \<and> list_all (\<lambda>(c, p). pos_float p) probs' \<and> 0 \<le> t'
           \<and> (probs' \<noteq> [] \<longrightarrow> 0 < t')
           \<and> ([] \<noteq> ([]::(channel \<times> pynum) list) \<or> (\<exists>ch \<in> set ?chs. feasible vis amt ch) \<longrightarrow> probs' \<noteq> [])"
    using pos by (intro weigh_pos) auto
  with feas obtain probs t where
    w: "weigh s cur vis amt ?chs [] (PyFloat 0) = Inr (probs, PyFloat t)"
    and fl: "list_all (\<lambda>(c, p). pos_float p) probs" and t: "0 < t"
    by auto
  let ?norm = "map (\<lambda>(ch, prob). (ch, py_div prob (PyFloat t))) probs"
  have "list_all (\<lambda>(c, p). \<exists>w. p = PyFloat w) ?norm"
    using fl by (induction probs) (auto dest!: pos_floatE)
  from roulette_floats [OF this] obtain x where
    x: "roulette (fst (uniform g)) (PyFloat 0) ?norm = Inr x" by blast
  from w t x obtain ch where
    sel: "select_next_channel s cur vis amt g = Inr (Some ch, snd (uniform g))"
    by (cases x) (auto simp: select_next_channel_def Let_def case_prod_beta)
  from select_next_channel_sound [OF sel] sel show ?thesis by blast
qed

lemma level_of_fresh:
  "graph s = two_node_graph bfee rate \<Longrightarrow>
     level_of (initialize_pheromones s) ''A'' (channel_AB bfee rate) = 1"
  by (simp add: level_of_def two_node_graph_init channel_AB_def)




section \<open>Path construction\<close>

lemma edges_ok_snoc:
  "p \<noteq> [] \<Longrightarrow> edges_ok g amt (p @ [x]) =
     (edges_ok g amt p \<and>
      (\<exists>ch \<in> set (get_outgoing_channels g (last p)). destination ch = x \<and> amt \<le> liquidity ch))"
  by (induction g amt p rule: edges_ok.induct) auto

lemma construct_loop_invariant:
  "construct_loop s en amt m path cur tot g = Inr ((Some p, f), g') \<Longrightarrow>
   path \<noteq> [] \<Longrightarrow> last path = cur \<Longrightarrow> distinct path \<Longrightarrow> edges_ok (graph s) amt path \<Longrightarrow>
   length path \<le> max 1 m \<Longrightarrow>
     distinct p \<and> edges_ok (graph s) amt p \<and> length p \<le> max 1 m \<and> last p = en
     \<and> hd p = hd path \<and> p \<noteq> []"
proof (induction s en amt m path cur tot g rule: construct_loop.induct)
  case (1 s en amt m path cur tot g)
  show ?case
  proof (cases "cur \<noteq> en \<and> length path < m")
    case False
    with "1.prems" show ?thesis
      by (subst (asm) construct_loop.simps) (auto split: if_splits)
  next
    case True
    with "1.prems"(1) obtain ch g1 where
      sel: "select_next_channel s cur path amt g = Inr (Some ch, g1)"
      and rec: "construct_loop s en amt m (path @ [destination ch]) (destination ch)
                  (tot + calculate_fee ch amt) g1 = Inr ((Some p, f), g')"
      by (subst (asm) construct_loop.simps)
         (auto split: sum.splits prod.splits option.splits)
    from select_next_channel_sound [OF sel]
    have ch: "ch \<in> set (get_outgoing_channels (graph s) cur)" "feasible path amt ch" by auto
    have a: "distinct (path @ [destination ch])"
      using "1.prems"(4) ch(2) by (simp add: feasible_def)
    have b: "edges_ok (graph s) amt (path @ [destination ch])"
      using "1.prems"(2,3,5) ch by (auto simp: edges_ok_snoc feasible_def)
    have c: "length (path @ [destination ch]) \<le> max 1 m" using True by simp
    from "1.IH" [OF True sel refl refl rec _ _ a b c] "1.prems"(2)
    show ?thesis by simp
  qed
qed

lemma construct_path_valid_general:
  assumes "construct_path s start_node end_node amt g = Inr ((Some p, f), g')"
  shows "valid_path (graph s) amt start_node end_node
           (max 1 (length (get_all_nodes (graph s)))) p"
  using construct_loop_invariant [OF assms [unfolded construct_path_def]]
  by (simp add: valid_path_def)

lemma construct_path_needs_nodes:
  assumes "construct_path s start_node end_node amt g = Inr ((Some p, f), g')"
    and "start_node \<noteq> end_node"
  shows "1 < length (get_all_nodes (graph s))"
  using assms unfolding construct_path_def
  by (subst (asm) construct_loop.simps) (auto split: if_splits)

lemma construct_path_valid_distinct_ends:
  assumes "construct_path s start_node end_node amt g = Inr ((Some p, f), g')"
    and "start_node \<noteq> end_node"
  shows "valid_path (graph s) amt start_node end_node (length (get_all_nodes (graph s))) p"
  using construct_path_valid_general [OF assms(1)] construct_path_needs_nodes [OF assms]
  by (simp add: valid_path_def)

lemma construct_path_start_is_end:
  "construct_path s x x amt g = Inr ((Some [x], Fin 0), g)"
  by (simp add: construct_path_def)

lemma select_two_node_A:
  assumes "graph s = two_node_graph bfee rate" and "0 < level_of s ''A'' (channel_AB bfee rate)"
    and "0 < bfee + 100 * rate + 1 / 10 ^ 9"
  shows "select_next_channel s ''A'' [''A''] 100 g =
           Inr (Some (channel_AB bfee rate), snd (uniform g))"
proof -
  have out: "get_outgoing_channels (graph s) ''A'' = [channel_AB bfee rate]"
    by (simp add: assms(1) two_node_graph_out_A)
  have f: "feasible [''A''] 100 (channel_AB bfee rate)"
    by (simp add: feasible_def channel_AB_def)
  have fee: "0 < calculate_fee (channel_AB bfee rate) 100 + 1 / 10 ^ 9"
    using assms(3) by (simp add: calculate_fee_def channel_AB_def)
  from select_returns_feasible [of s "''A''" "[''A'']" 100 g] out f fee assms(2)
  show ?thesis by simp
qed

lemma select_two_node_B:
  assumes "graph s = two_node_graph bfee rate"
  shows "select_next_channel s ''B'' vis amt g = Inr (None, g)"
  by (simp add: select_next_channel_def assms two_node_graph_out_B)

lemma construct_path_two_node_AB:
  assumes "graph s = two_node_graph bfee rate" and "0 < level_of s ''A'' (channel_AB bfee rate)"
    and "0 < bfee + 100 * rate + 1 / 10 ^ 9"
  shows "construct_path s ''A'' ''B'' 100 g =
           Inr ((Some [''A'', ''B''], Fin (bfee + 100 * rate)), snd (uniform g))"
proof -
  have stop: "\<And>m t h. construct_loop s ''B'' 100 m [''A'', ''B''] ''B'' t h =
          Inr ((Some [''A'', ''B''], Fin t), h)"
    by (subst construct_loop.simps) simp
  have fee: "calculate_fee (channel_AB bfee rate) 100 = bfee + 100 * rate"
    by (simp add: calculate_fee_def channel_AB_def)
  have dest: "destination (channel_AB bfee rate) = ''B''" by (simp add: channel_AB_def)
  show ?thesis
    unfolding construct_path_def
    by (subst construct_loop.simps)
       (simp add: assms(1) two_node_graph_nodes select_two_node_A [OF assms] stop fee dest
          del: construct_loop.simps)
qed

lemma construct_path_two_node_BA:
  assumes "graph s = two_node_graph bfee rate"
  shows "construct_path s ''B'' ''A'' amt g = Inr ((None, PInf), g)"
  unfolding construct_path_def
  by (subst construct_loop.simps)
     (simp add: assms two_node_graph_nodes select_two_node_B [OF assms]
        del: construct_loop.simps)

section \<open>The rounds of solve\<close>

lemma same_config_refl: "same_config s s"
  by (simp add: same_config_def)

lemma same_config_trans: "same_config a b \<Longrightarrow> same_config b c \<Longrightarrow> same_config a c"
  by (simp add: same_config_def)

lemma run_ants_config:
  "run_ants n s st en amt ap g = Inr (s', ap', g') \<Longrightarrow> same_config s s'"
proof (induction n arbitrary: s ap g)
  case 0 then show ?case by (simp add: same_config_refl)
next
  case (Suc n)
  show ?case
  proof (cases "construct_path s st en amt g")
    case (Inl e) with Suc.prems show ?thesis by simp
  next
    case (Inr res)
    obtain p f g1 where res: "res = ((p, f), g1)" by (metis prod.exhaust)
    show ?thesis
    proof (cases "\<exists>path. p = Some path \<and> path \<noteq> []")
      case False
      with Suc.prems Inr res have "run_ants n s st en amt ap g1 = Inr (s', ap', g')"
        by (auto split: option.splits)
      then show ?thesis by (rule Suc.IH)
    next
      case True
      then obtain path where p: "p = Some path" "path \<noteq> []" by blast
      let ?s1 = "if fee_less f (best_path_fee s)
                 then s\<lparr>best_path := Some path, best_path_fee := f\<rparr> else s"
      from Suc.prems Inr res p
      have "run_ants n ?s1 st en amt (ap @ [(path, f)]) g1 = Inr (s', ap', g')" by simp
      then have "same_config ?s1 s'" by (rule Suc.IH)
      moreover have "same_config s ?s1" by (simp add: same_config_def)
      ultimately show ?thesis by (blast intro: same_config_trans)
    qed
  qed
qed

lemma update_pheromones_config: "update_pheromones s ap = Inr s' \<Longrightarrow> same_config s s'"
  by (auto simp: update_pheromones_def same_config_def split: sum.splits)

lemma run_iteration_config:
  "run_iteration s st en amt g = Inr (s', g') \<Longrightarrow> same_config s s'"
  by (auto simp: run_iteration_def split: sum.splits prod.splits
      dest!: run_ants_config update_pheromones_config intro: same_config_trans)

lemma run_iterations_config:
  "run_iterations n s st en amt g = Inr (s', g') \<Longrightarrow> same_config s s'"
proof (induction n arbitrary: s g)
  case 0 then show ?case by (simp add: same_config_refl)
next
  case (Suc n)
  from Suc.prems obtain s1 g1 where
    a: "run_iteration s st en amt g = Inr (s1, g1)"
    and b: "run_iterations n s1 st en amt g1 = Inr (s', g')"
    by (auto split: sum.splits prod.splits)
  from run_iteration_config [OF a] Suc.IH [OF b] show ?case by (rule same_config_trans)
qed

lemma run_ants_best_fee:
  "run_ants n s st en amt ap g = Inr (s', ap', g') \<Longrightarrow> fee_le (best_path_fee s') (best_path_fee s)"
proof (induction n arbitrary: s ap g)
  case 0 then show ?case by (simp add: fee_le_refl)
next
  case (Suc n)
  show ?case
  proof (cases "construct_path s st en amt g")
    case (Inl e) with Suc.prems show ?thesis by simp
  next
    case (Inr res)
    obtain p f g1 where res: "res = ((p, f), g1)" by (metis prod.exhaust)
    show ?thesis
    proof (cases "\<exists>path. p = Some path \<and> path \<noteq> []")
      case False
      with Suc.prems Inr res have "run_ants n s st en amt ap g1 = Inr (s', ap', g')"
        by (auto split: option.splits)
      then show ?thesis by (rule Suc.IH)
    next
      case True
      then obtain path where p: "p = Some path" "path \<noteq> []" by blast
      let ?s1 = "if fee_less f (best_path_fee s)
                 then s\<lparr>best_path := Some path, best_path_fee := f\<rparr> else s"
      from Suc.prems Inr res p
      have "run_ants n ?s1 st en amt (ap @ [(path, f)]) g1 = Inr (s', ap', g')" by simp
      then have "fee_le (best_path_fee s') (best_path_fee ?s1)" by (rule Suc.IH)
      moreover have "fee_le (best_path_fee ?s1) (best_path_fee s)"
        by (simp add: fee_le_refl fee_less_le)
      ultimately show ?thesis by (rule fee_le_trans)
    qed
  qed
qed

lemma run_iteration_best_fee:
  "run_iteration s st en amt g = Inr (s', g') \<Longrightarrow> fee_le (best_path_fee s') (best_path_fee s)"
  by (auto simp: run_iteration_def split: sum.splits prod.splits
      dest!: run_ants_best_fee update_pheromones_best)

lemma run_iterations_snoc:
  "run_iterations (Suc n) s st en amt g =
     (case run_iterations n s st en amt g of
        Inl e \<Rightarrow> Inl e
      | Inr (s', g') \<Rightarrow> run_iteration s' st en amt g')"
proof (induction n arbitrary: s g)
  case 0 then show ?case by (simp split: sum.splits prod.splits)
next
  case (Suc n)
  show ?case
  proof (cases "run_iteration s st en amt g")
    case (Inl e)
    then show ?thesis by simp
  next
    case (Inr p)
    obtain s' g' where p: "p = (s', g')" by (cases p)
    have L: "run_iterations (Suc (Suc n)) s st en amt g = run_iterations (Suc n) s' st en amt g'"
      using Inr p by (subst run_iterations.simps(2)) (simp del: run_iterations.simps)
    have R: "run_iterations (Suc n) s st en amt g = run_iterations n s' st en amt g'"
      using Inr p by (subst run_iterations.simps(2)) (simp del: run_iterations.simps)
    show ?thesis unfolding L R by (rule Suc.IH)
  qed
qed

lemma run_ants_two_node_BA:
  "graph s = two_node_graph bfee rate \<Longrightarrow> run_ants n s ''B'' ''A'' amt ap g = Inr (s, ap, g)"
  by (induction n) (simp_all add: construct_path_two_node_BA)

lemma run_iterations_two_node_BA:
  "graph s = two_node_graph bfee rate \<Longrightarrow>
     \<exists>s'. run_iterations n s ''B'' ''A'' amt g = Inr (s', g)
          \<and> best_path s' = best_path s \<and> best_path_fee s' = best_path_fee s"
proof (induction n arbitrary: s)
  case 0 then show ?case by simp
next
  case (Suc n)
  let ?s1 = "s\<lparr>pheromones := evaporate (evaporation_rate s) (pheromones s)\<rparr>"
  have it: "run_iteration s ''B'' ''A'' amt g = Inr (?s1, g)"
    by (simp add: run_iteration_def run_ants_two_node_BA [OF Suc.prems]
        update_pheromones_no_paths)
  have "graph ?s1 = two_node_graph bfee rate" using Suc.prems by simp
  from Suc.IH [OF this] it show ?case by simp
qed

lemma solve_two_node_BA:
  assumes "graph s = two_node_graph bfee rate"
  shows "result_of (solve s ''B'' ''A'' amt g) = Inr (best_path s, best_path_fee s)"
proof -
  have "graph (initialize_pheromones s) = two_node_graph bfee rate"
    using assms by (simp add: initialize_pheromones_def)
  from run_iterations_two_node_BA [OF this, of "nat (iterations s)" amt g]
  show ?thesis
    by (auto simp: solve_def result_of_def initialize_pheromones_def)
qed

lemma run_ants_two_node_AB:
  assumes "graph s = two_node_graph bfee rate" and "0 < level_of s ''A'' (channel_AB bfee rate)"
    and "0 < bfee + 100 * rate + 1 / 10 ^ 9" and "best_path_fee s = PInf"
  shows "run_ants (Suc 0) s ''A'' ''B'' 100 [] g =
           Inr (s\<lparr>best_path := Some [''A'', ''B''], best_path_fee := Fin (bfee + 100 * rate)\<rparr>,
                [([''A'', ''B''], Fin (bfee + 100 * rate))], snd (uniform g))"
  by (simp add: construct_path_two_node_AB [OF assms(1,2,3)] assms(4))

lemma run_iteration_two_node_AB:
  assumes "graph s = two_node_graph bfee rate" and "num_ants s = 1"
    and "0 < bfee + 100 * rate + 1 / 10 ^ 9" and "best_path_fee s = PInf"
  shows "run_iteration (initialize_pheromones s) ''A'' ''B'' 100 g =
          (if bfee + 100 * rate = 0 then Inl ZeroDivisionError
           else Inr ((initialize_pheromones s)
                  \<lparr>best_path := Some [''A'', ''B''], best_path_fee := Fin (bfee + 100 * rate),
                   pheromones := deposit_path
                      (evaporate (evaporation_rate s) (pheromones (initialize_pheromones s)))
                      [''A'', ''B''] (Q s / (bfee + 100 * rate))\<rparr>, snd (uniform g)))"
proof -
  let ?fresh = "initialize_pheromones s"
  have g0: "graph ?fresh = two_node_graph bfee rate" "num_ants ?fresh = 1" "best_path_fee ?fresh = PInf"
    "evaporation_rate ?fresh = evaporation_rate s" "Q ?fresh = Q s"
    using assms by (simp_all add: initialize_pheromones_def)
  have lv: "0 < level_of ?fresh ''A'' (channel_AB bfee rate)"
    by (simp add: level_of_fresh [OF assms(1)])
  show ?thesis
    unfolding run_iteration_def
    by (simp add: g0 run_ants_two_node_AB [OF g0(1) lv assms(3) g0(3)] update_pheromones_def
        del: run_ants.simps deposit_path.simps)
qed

lemma solve_two_node_AB:
  assumes "0 < bfee + 100 * rate + 1 / 10 ^ 9" and "bfee + 100 * rate \<noteq> 0"
  shows "\<exists>s'. solve (init_solver (two_node_graph bfee rate) 1 1 a b evap q) ''A'' ''B'' 100 g =
           Inr ((Some [''A'', ''B''], Fin (bfee + 100 * rate)), s', snd (uniform g))
         \<and> graph s' = two_node_graph bfee rate
         \<and> best_path s' = Some [''A'', ''B''] \<and> best_path_fee s' = Fin (bfee + 100 * rate)"
proof -
  let ?s = "init_solver (two_node_graph bfee rate) 1 1 a b evap q"
  have s: "graph ?s = two_node_graph bfee rate" "num_ants ?s = 1" "best_path_fee ?s = PInf"
    "iterations ?s = 1"
    by (simp_all add: init_solver_def)
  from run_iteration_two_node_AB [OF s(1,2) assms(1) s(3), of g] assms(2)
  show ?thesis
    by (simp add: solve_def s(4)) (simp add: initialize_pheromones_def s(1))
qed

text \<open>
  Claim C7. Within a call of \<^verbatim>\<open>solve\<close> the best fee never increases from one
  iteration to the next: when iteration \<open>i + 1\<close> has completed, iteration \<open>i\<close> had
  completed before it, and the best fee after iteration \<open>i + 1\<close> is at most the best fee
  after iteration \<open>i\<close>.
\<close>

theorem best_fee_non_increasing:
  assumes "run_iterations (Suc i) (initialize_pheromones s) st en amt g = Inr (s2, g2)"
  shows "\<exists>s1 g1. run_iterations i (initialize_pheromones s) st en amt g = Inr (s1, g1)
           \<and> fee_le (best_path_fee s2) (best_path_fee s1)"
proof -
  from assms obtain s1 g1
    where a: "run_iterations i (initialize_pheromones s) st en amt g = Inr (s1, g1)"
      and b: "run_iteration s1 st en amt g1 = Inr (s2, g2)"
    by (auto simp: run_iterations_snoc simp del: run_iterations.simps split: sum.splits prod.splits)
  from b have "fee_le (best_path_fee s2) (best_path_fee s1)" by (rule run_iteration_best_fee)
  with a show ?thesis by blast
qed

text \<open>
  The hypothesis of C7 holds for the first iteration on the two-node topology: the best
  fee goes from \<open>+infinity\<close> to 11/10.
\<close>

theorem best_fee_non_increasing_witness:
  "\<exists>s2 g2. run_iterations (Suc 0)
       (initialize_pheromones (init_solver (two_node_graph 1 (1 / 1000)) 1 1 1 2 (1 / 2) 100))
       ''A'' ''B'' 100 (const_rng (1 / 2)) = Inr (s2, g2)
     \<and> best_path_fee s2 = Fin (11 / 10)
     \<and> (\<exists>s1 g1. run_iterations 0
           (initialize_pheromones (init_solver (two_node_graph 1 (1 / 1000)) 1 1 1 2 (1 / 2) 100))
           ''A'' ''B'' 100 (const_rng (1 / 2)) = Inr (s1, g1)
         \<and> best_path_fee s1 = PInf
         \<and> fee_le (best_path_fee s2) (best_path_fee s1))"
proof -
  let ?fresh = "init_solver (two_node_graph 1 (1 / 1000)) 1 1 1 2 (1 / 2) 100"
  have s: "graph ?fresh = two_node_graph 1 (1 / 1000)" "num_ants ?fresh = 1" "best_path_fee ?fresh = PInf"
    by (simp_all add: init_solver_def)
  have "(0::real) < 1 + 100 * (1 / 1000) + 1 / 10 ^ 9" by simp
  from run_iteration_two_node_AB [OF s(1,2) this s(3), of "const_rng (1 / 2)"]
  obtain s2 g2 where
    r: "run_iterations (Suc 0) (initialize_pheromones ?fresh) ''A'' ''B'' 100 (const_rng (1 / 2))
          = Inr (s2, g2)"
    and f2: "best_path_fee s2 = Fin (11 / 10)"
    by simp
  from best_fee_non_increasing [OF r] obtain s1 g1 where
    r0: "run_iterations 0 (initialize_pheromones ?fresh) ''A'' ''B'' 100 (const_rng (1 / 2))
          = Inr (s1, g1)"
    and le: "fee_le (best_path_fee s2) (best_path_fee s1)"
    by blast
  from r0 have "best_path_fee s1 = PInf"
    by (auto simp: initialize_pheromones_def init_solver_def)
  with r f2 r0 le show ?thesis by blast
qed

section \<open>Calls that run no ant, and start = end\<close>

lemma solve_no_iterations:
  "iterations s \<le> 0 \<Longrightarrow>
     solve s st en amt g = Inr ((best_path s, best_path_fee s), initialize_pheromones s, g)"
  by (simp add: solve_def initialize_pheromones_def)

lemma run_iteration_no_ants:
  "num_ants s \<le> 0 \<Longrightarrow>
     run_iteration s st en amt g =
       Inr (s\<lparr>pheromones := evaporate (evaporation_rate s) (pheromones s)\<rparr>, g)"
  by (simp add: run_iteration_def update_pheromones_no_paths)

lemma run_iterations_no_ants:
  "num_ants s \<le> 0 \<Longrightarrow>
     run_iterations n s st en amt g =
       Inr (s\<lparr>pheromones := (evaporate (evaporation_rate s) ^^ n) (pheromones s)\<rparr>, g)"
proof (induction n arbitrary: s)
  case 0 then show ?case by simp
next
  case (Suc n)
  let ?s1 = "s\<lparr>pheromones := evaporate (evaporation_rate s) (pheromones s)\<rparr>"
  have "num_ants ?s1 \<le> 0" using Suc.prems by simp
  from Suc.IH [OF this] Suc.prems show ?case
    by (simp add: run_iteration_no_ants funpow_swap1)
qed

lemma solve_no_ants:
  "num_ants s \<le> 0 \<Longrightarrow>
     solve s st en amt g =
       Inr ((best_path s, best_path_fee s),
            (initialize_pheromones s)\<lparr>pheromones :=
               (evaporate (evaporation_rate s) ^^ nat (iterations s))
                 (pheromones (initialize_pheromones s))\<rparr>, g)"
proof -
  have "num_ants (initialize_pheromones s) \<le> 0" if "num_ants s \<le> 0"
    using that by (simp add: initialize_pheromones_def)
  from run_iterations_no_ants [OF this] show "num_ants s \<le> 0 \<Longrightarrow> ?thesis"
    by (simp add: solve_def) (simp add: initialize_pheromones_def)
qed

lemma run_ants_start_is_end:
  "\<exists>s'. run_ants n s x x amt ap g = Inr (s', ap @ replicate n ([x], Fin 0), g)"
proof (induction n arbitrary: s ap)
  case 0 then show ?case by simp
next
  case (Suc n)
  let ?s1 = "if fee_less (Fin 0) (best_path_fee s)
             then s\<lparr>best_path := Some [x], best_path_fee := Fin 0\<rparr> else s"
  from Suc.IH [of ?s1 "ap @ [([x], Fin 0)]"] show ?case
    by (simp add: construct_path_start_is_end replicate_app_Cons_same)
qed

lemma run_iteration_start_is_end:
  assumes "0 < num_ants s"
  shows "run_iteration s x x amt g = Inl ZeroDivisionError"
proof -
  from assms obtain k where k: "nat (num_ants s) = Suc k"
    by (metis Suc_pred' zero_less_nat_eq)
  from run_ants_start_is_end [of "Suc k" s x amt "[]" g] obtain s' where
    "run_ants (Suc k) s x x amt [] g = Inr (s', ([x], Fin 0) # replicate k ([x], Fin 0), g)"
    by auto
  then show ?thesis
    by (simp add: run_iteration_def k update_pheromones_def del: run_ants.simps)
qed

lemma solve_start_is_end:
  assumes "0 < num_ants s" and "0 < iterations s"
  shows "solve s x x amt g = Inl ZeroDivisionError"
proof -
  from assms(2) obtain k where k: "nat (iterations s) = Suc k"
    by (metis Suc_pred' zero_less_nat_eq)
  have "0 < num_ants (initialize_pheromones s)"
    using assms(1) by (simp add: initialize_pheromones_def)
  from run_iteration_start_is_end [OF this] show ?thesis
    by (simp add: solve_def k)
qed




text \<open>
  With \<open>num_ants = 0\<close> and \<open>iterations = 1\<close> the iteration runs: no ant is launched,
  but the level of A \<rightarrow> B decays from 1 to 1/2. Claim C10 fails as stated.
\<close>

theorem no_ants_still_evaporates:
  "solve (init_solver (two_node_graph 1 (1 / 1000)) 0 1 1 2 (1 / 2) 100) ''A'' ''B'' 100
      (const_rng (1 / 2))
     = Inr ((None, PInf),
         (initialize_pheromones (init_solver (two_node_graph 1 (1 / 1000)) 0 1 1 2 (1 / 2) 100))
           \<lparr>pheromones := evaporate (1 / 2) (pheromones (initialize_pheromones
               (init_solver (two_node_graph 1 (1 / 1000)) 0 1 1 2 (1 / 2) 100)))\<rparr>,
         const_rng (1 / 2))
   \<and> pheromones (initialize_pheromones
        (init_solver (two_node_graph 1 (1 / 1000)) 0 1 1 2 (1 / 2) 100)) (''A'', ''B'') = Some 1
   \<and> evaporate (1 / 2) (pheromones (initialize_pheromones
        (init_solver (two_node_graph 1 (1 / 1000)) 0 1 1 2 (1 / 2) 100))) (''A'', ''B'')
     = Some (1 / 2)"
proof -
  let ?s = "init_solver (two_node_graph 1 (1 / 1000)) 0 1 1 2 (1 / 2) 100"
  have "num_ants ?s \<le> 0" by (simp add: init_solver_def)
  from solve_no_ants [OF this, of "''A''" "''B''" 100 "const_rng (1 / 2)"]
  have a: "solve ?s ''A'' ''B'' 100 (const_rng (1 / 2)) =
     Inr ((None, PInf), (initialize_pheromones ?s)
           \<lparr>pheromones := evaporate (1 / 2) (pheromones (initialize_pheromones ?s))\<rparr>,
         const_rng (1 / 2))"
    by (simp add: init_solver_def)
  have b: "pheromones (initialize_pheromones ?s) (''A'', ''B'') = Some 1"
    by (simp add: two_node_graph_fresh)
  then have c: "evaporate (1 / 2) (pheromones (initialize_pheromones ?s)) (''A'', ''B'')
     = Some (1 / 2)"
    by (simp add: evaporate_def)
  from a b c show ?thesis by blast
qed

text \<open>
  Claim C10, amended. On a solver as \<^verbatim>\<open>__init__\<close> builds it: with
  \<open>iterations \<le> 0\<close> no iteration runs, the store is the initial store, and \<^verbatim>\<open>solve\<close>
  returns \<open>(None, +infinity)\<close> without error; with \<open>num_ants \<le> 0\<close> no ant is launched,
  every iteration still decays the store once, and \<^verbatim>\<open>solve\<close> returns
  \<open>(None, +infinity)\<close> without error.
\<close>

theorem solve_without_iterations_or_ants:
  "(iters \<le> 0 \<longrightarrow>
      solve (init_solver gr ants iters a b evap q) start_node end_node amt g =
        Inr ((None, PInf), initialize_pheromones (init_solver gr ants iters a b evap q), g))
   \<and> (ants \<le> 0 \<longrightarrow>
      solve (init_solver gr ants iters a b evap q) start_node end_node amt g =
        Inr ((None, PInf),
             (initialize_pheromones (init_solver gr ants iters a b evap q))
               \<lparr>pheromones := (evaporate evap ^^ nat iters)
                  (pheromones (initialize_pheromones (init_solver gr ants iters a b evap q)))\<rparr>,
             g))"
proof (intro conjI impI)
  assume "iters \<le> 0"
  then have "iterations (init_solver gr ants iters a b evap q) \<le> 0" by (simp add: init_solver_def)
  from solve_no_iterations [OF this]
  show "solve (init_solver gr ants iters a b evap q) start_node end_node amt g =
        Inr ((None, PInf), initialize_pheromones (init_solver gr ants iters a b evap q), g)"
    by (simp add: init_solver_def)
next
  assume "ants \<le> 0"
  then have "num_ants (init_solver gr ants iters a b evap q) \<le> 0" by (simp add: init_solver_def)
  from solve_no_ants [OF this, of start_node end_node amt g]
  show "solve (init_solver gr ants iters a b evap q) start_node end_node amt g =
        Inr ((None, PInf),
             (initialize_pheromones (init_solver gr ants iters a b evap q))
               \<lparr>pheromones := (evaporate evap ^^ nat iters)
                  (pheromones (initialize_pheromones (init_solver gr ants iters a b evap q)))\<rparr>,
             g)"
    by (simp add: init_solver_def)
qed

text \<open>
  The hypotheses of the amended C10 hold for \<open>num_ants = 0\<close> and \<open>iterations = 0\<close>.
\<close>

theorem solve_without_iterations_or_ants_witness:
  "(0::int) \<le> 0
   \<and> solve (init_solver (two_node_graph 1 (1 / 1000)) 0 0 1 2 (1 / 2) 100) ''A'' ''B'' 100
       (const_rng (1 / 2))
     = Inr ((None, PInf),
         initialize_pheromones (init_solver (two_node_graph 1 (1 / 1000)) 0 0 1 2 (1 / 2) 100),
         const_rng (1 / 2))"
  using solve_without_iterations_or_ants [of 0 "two_node_graph 1 (1 / 1000)" 0 1 2 "1 / 2" 100
      "''A''" "''B''" 100 "const_rng (1 / 2)"]
  by simp

text \<open>
  Claim C9. For \<open>start_node = end_node\<close> the path constructor returns the one-node path
  with fee 0 without running its loop. \<^verbatim>\<open>solve\<close> does not return that path: with at
  least one ant and one iteration the deposit \<^verbatim>\<open>Q / total_fee\<close> of the first iteration
  divides by zero.
\<close>

theorem solve_start_is_end_faults:
  "construct_path s x x amt g = Inr ((Some [x], Fin 0), g)
   \<and> (0 < num_ants s \<and> 0 < iterations s \<longrightarrow> solve s x x amt g = Inl ZeroDivisionError)"
proof (intro conjI impI)
  show "construct_path s x x amt g = Inr ((Some [x], Fin 0), g)"
    by (rule construct_path_start_is_end)
next
  assume "0 < num_ants s \<and> 0 < iterations s"
  then have "0 < num_ants s" and "0 < iterations s" by simp_all
  then show "solve s x x amt g = Inl ZeroDivisionError"
    by (rule solve_start_is_end)
qed

text \<open>
  The hypotheses of C9 hold for 20 ants and 50 iterations on the two-node topology.
\<close>

theorem solve_start_is_end_faults_witness:
  "0 < num_ants (init_solver (two_node_graph 1 (1 / 1000)) 20 50 1 2 (1 / 2) 100)
   \<and> 0 < iterations (init_solver (two_node_graph 1 (1 / 1000)) 20 50 1 2 (1 / 2) 100)
   \<and> construct_path (init_solver (two_node_graph 1 (1 / 1000)) 20 50 1 2 (1 / 2) 100)
        ''A'' ''A'' 100 (const_rng (1 / 2)) = Inr ((Some [''A''], Fin 0), const_rng (1 / 2))
   \<and> solve (init_solver (two_node_graph 1 (1 / 1000)) 20 50 1 2 (1 / 2) 100)
        ''A'' ''A'' 100 (const_rng (1 / 2)) = Inl ZeroDivisionError"
proof -
  let ?s = "init_solver (two_node_graph 1 (1 / 1000)) 20 50 1 2 (1 / 2) 100"
  have h: "0 < num_ants ?s" "0 < iterations ?s" by (simp_all add: init_solver_def)
  from solve_start_is_end_faults [of ?s "''A''" 100 "const_rng (1 / 2)"] h
  show ?thesis by blast
qed

text \<open>
  Claim C4. The deposit \<^verbatim>\<open>Q / total_fee\<close> is not guarded: on the topology whose one
  channel A \<rightarrow> B is free (base fee 0, fee rate 0), the first ant finds the path
  A \<rightarrow> B with total fee 0 and \<^verbatim>\<open>solve\<close> raises ZeroDivisionError.
\<close>

theorem solve_zero_fee_path_faults:
  "solve (init_solver (two_node_graph 0 0) 1 1 1 2 (1 / 2) 100) ''A'' ''B'' 100
     (const_rng (1 / 2)) = Inl ZeroDivisionError"
proof -
  let ?s = "init_solver (two_node_graph 0 0) 1 1 1 2 (1 / 2) 100"
  have s: "graph ?s = two_node_graph 0 0" "num_ants ?s = 1" "best_path_fee ?s = PInf"
    "iterations ?s = 1"
    by (simp_all add: init_solver_def)
  have "(0::real) < 0 + 100 * 0 + 1 / 10 ^ 9" by simp
  from run_iteration_two_node_AB [OF s(1,2) this s(3), of "const_rng (1 / 2)"]
  show ?thesis by (simp add: solve_def s(4))
qed

text \<open>
  Claim C2. \<^verbatim>\<open>solve\<close> does not reset the best solution: after a first call from A
  to B on the two-node topology, a second call from B to A on the same solver object
  returns the path A \<rightarrow> B of the first call, where a call on a new solver returns
  \<open>(None, +infinity)\<close>.
\<close>

theorem second_solve_returns_stale_best:
  "solve_twice (init_solver (two_node_graph 1 (1 / 1000)) 1 1 1 2 (1 / 2) 100)
      ''A'' ''B'' 100 ''B'' ''A'' 100 (const_rng (1 / 2))
     = Inr ((Some [''A'', ''B''], Fin (11 / 10)), (Some [''A'', ''B''], Fin (11 / 10)))
   \<and> result_of (solve (init_solver (two_node_graph 1 (1 / 1000)) 1 1 1 2 (1 / 2) 100)
        ''B'' ''A'' 100 (const_rng (1 / 2))) = Inr (None, PInf)"
proof -
  let ?fresh = "init_solver (two_node_graph 1 (1 / 1000)) 1 1 1 2 (1 / 2) 100"
  from solve_two_node_AB [of 1 "1 / 1000" 1 2 "1 / 2" 100 "const_rng (1 / 2)"]
  obtain s1 where
    first: "solve ?fresh ''A'' ''B'' 100 (const_rng (1 / 2)) =
              Inr ((Some [''A'', ''B''], Fin (11 / 10)), s1, const_rng (1 / 2))"
    and s1: "graph s1 = two_node_graph 1 (1 / 1000)" "best_path s1 = Some [''A'', ''B'']"
      "best_path_fee s1 = Fin (11 / 10)"
    by (auto simp: uniform_const_rng)
  from solve_two_node_BA [OF s1(1), of 100 "const_rng (1 / 2)"] s1
  have second: "result_of (solve s1 ''B'' ''A'' 100 (const_rng (1 / 2))) =
                  Inr (Some [''A'', ''B''], Fin (11 / 10))"
    by simp
  have "graph ?fresh = two_node_graph 1 (1 / 1000)" by (simp add: init_solver_def)
  from solve_two_node_BA [OF this, of 100 "const_rng (1 / 2)"]
  have fresh: "result_of (solve ?fresh ''B'' ''A'' 100 (const_rng (1 / 2))) = Inr (None, PInf)"
    by (simp add: init_solver_def)
  from first second have "solve_twice ?fresh ''A'' ''B'' 100 ''B'' ''A'' 100 (const_rng (1 / 2))
     = Inr ((Some [''A'', ''B''], Fin (11 / 10)), (Some [''A'', ''B''], Fin (11 / 10)))"
    by (auto simp: solve_twice_def result_of_def split: sum.splits prod.splits)
  with fresh show ?thesis by blast
qed

section \<open>Validity of the best path\<close>

lemma run_ants_best_valid:
  assumes "start_node \<noteq> end_node"
  shows "run_ants n s start_node end_node amt ap g = Inr (s', ap', g') \<Longrightarrow>
    (\<And>p. best_path s = Some p \<Longrightarrow>
       valid_path (graph s) amt start_node end_node (length (get_all_nodes (graph s))) p) \<Longrightarrow>
    best_path s' = Some q \<Longrightarrow>
    valid_path (graph s) amt start_node end_node (length (get_all_nodes (graph s))) q"
proof (induction n arbitrary: s ap g)
  case 0 then show ?case by simp
next
  case (Suc n)
  show ?case
  proof (cases "construct_path s start_node end_node amt g")
    case (Inl e) with Suc.prems show ?thesis by simp
  next
    case (Inr res)
    obtain p f g1 where res: "res = ((p, f), g1)" by (metis prod.exhaust)
    show ?thesis
    proof (cases "\<exists>path. p = Some path \<and> path \<noteq> []")
      case False
      with Suc.prems(1) Inr res
      have "run_ants n s start_node end_node amt ap g1 = Inr (s', ap', g')"
        by (auto split: option.splits)
      from Suc.IH [OF this Suc.prems(2) Suc.prems(3)] show ?thesis by simp
    next
      case True
      then obtain path where p: "p = Some path" "path \<noteq> []" by blast
      let ?s1 = "if fee_less f (best_path_fee s)
                 then s\<lparr>best_path := Some path, best_path_fee := f\<rparr> else s"
      have gr: "graph ?s1 = graph s" by simp
      from Inr res p have
        "construct_path s start_node end_node amt g = Inr ((Some path, f), g1)" by simp
      from construct_path_valid_distinct_ends [OF this assms]
      have v: "valid_path (graph s) amt start_node end_node
                 (length (get_all_nodes (graph s))) path" .
      from Suc.prems(1) Inr res p
      have r: "run_ants n ?s1 start_node end_node amt (ap @ [(path, f)]) g1 = Inr (s', ap', g')"
        by simp
      have "valid_path (graph ?s1) amt start_node end_node
              (length (get_all_nodes (graph ?s1))) q"
      proof (rule Suc.IH [OF r _ Suc.prems(3)])
        fix p' assume "best_path ?s1 = Some p'"
        with v Suc.prems(2) show "valid_path (graph ?s1) amt start_node end_node
              (length (get_all_nodes (graph ?s1))) p'"
          by (auto split: if_splits)
      qed
      then show ?thesis by (simp split: if_splits)
    qed
  qed
qed

lemma run_iteration_best_valid:
  assumes "start_node \<noteq> end_node"
    and "run_iteration s start_node end_node amt g = Inr (s', g')"
    and "\<And>p. best_path s = Some p \<Longrightarrow>
       valid_path (graph s) amt start_node end_node (length (get_all_nodes (graph s))) p"
    and "best_path s' = Some q"
  shows "valid_path (graph s) amt start_node end_node (length (get_all_nodes (graph s))) q"
proof -
  from assms(2) obtain s1 ap g1 where
    a: "run_ants (nat (num_ants s)) s start_node end_node amt [] g = Inr (s1, ap, g1)"
    and b: "update_pheromones s1 ap = Inr s'"
    by (auto simp: run_iteration_def split: sum.splits prod.splits)
  from update_pheromones_best [OF b] assms(4) have "best_path s1 = Some q" by simp
  from run_ants_best_valid [OF assms(1) a assms(3) this] show ?thesis .
qed

lemma run_iterations_best_valid:
  assumes "start_node \<noteq> end_node"
  shows "run_iterations n s start_node end_node amt g = Inr (s', g') \<Longrightarrow>
    (\<And>p. best_path s = Some p \<Longrightarrow>
       valid_path (graph s) amt start_node end_node (length (get_all_nodes (graph s))) p) \<Longrightarrow>
    best_path s' = Some q \<Longrightarrow>
    valid_path (graph s) amt start_node end_node (length (get_all_nodes (graph s))) q"
proof (induction n arbitrary: s g)
  case 0 then show ?case by simp
next
  case (Suc n)
  from Suc.prems(1) obtain s1 g1 where
    a: "run_iteration s start_node end_node amt g = Inr (s1, g1)"
    and b: "run_iterations n s1 start_node end_node amt g1 = Inr (s', g')"
    by (auto split: sum.splits prod.splits)
  from run_iteration_config [OF a] have gr: "graph s1 = graph s" by (simp add: same_config_def)
  have "valid_path (graph s1) amt start_node end_node (length (get_all_nodes (graph s1))) q"
  proof (rule Suc.IH [OF b _ Suc.prems(3)])
    fix p assume "best_path s1 = Some p"
    from run_iteration_best_valid [OF assms a Suc.prems(2) this]
    show "valid_path (graph s1) amt start_node end_node (length (get_all_nodes (graph s1))) p"
      by (simp add: gr)
  qed
  then show ?case by (simp add: gr)
qed

lemma solve_fresh_same_ends:
  "result_of (solve (init_solver gr ants iters a b evap q) x x amt g) \<noteq> Inr (Some p, f)"
proof (cases "0 < ants \<and> 0 < iters")
  case True
  then have "solve (init_solver gr ants iters a b evap q) x x amt g = Inl ZeroDivisionError"
    by (intro solve_start_is_end) (simp_all add: init_solver_def)
  then show ?thesis by (simp add: result_of_def)
next
  case False
  then consider "iters \<le> 0" | "ants \<le> 0" by linarith
  then show ?thesis
  proof cases
    case 1
    then show ?thesis
      by (subst solve_no_iterations) (simp_all add: init_solver_def result_of_def)
  next
    case 2
    then show ?thesis
      by (subst solve_no_ants) (simp_all add: init_solver_def result_of_def)
  qed
qed

lemma solve_fresh_best_valid:
  assumes "solve (init_solver gr ants iters a b evap q) start_node end_node amt g =
             Inr ((Some p, f), s', g')"
  shows "valid_path gr amt start_node end_node (length (get_all_nodes gr)) p"
proof -
  let ?fresh = "init_solver gr ants iters a b evap q"
  have ne: "start_node \<noteq> end_node"
    using assms solve_fresh_same_ends [of gr ants iters a b evap q start_node amt g p f]
    by (auto simp: result_of_def)
  from assms obtain s1 where
    r: "run_iterations (nat (iterations ?fresh)) (initialize_pheromones ?fresh)
          start_node end_node amt g = Inr (s1, g')"
    and bp: "best_path s1 = Some p"
    by (auto simp: solve_def split: sum.splits prod.splits)
  have g0: "graph (initialize_pheromones ?fresh) = gr"
    "best_path (initialize_pheromones ?fresh) = None"
    by (simp_all add: initialize_pheromones_def init_solver_def)
  from run_iterations_best_valid [OF ne r _ bp] g0 show ?thesis by simp
qed

text \<open>
  On a topology that lists no node, the path constructor called with
  \<open>start_node = end_node\<close> returns a complete path of one node: longer than the node
  count. Claim C5 fails as stated.
\<close>

theorem path_longer_than_node_count:
  "construct_path (init_solver empty_graph 1 1 1 2 (1 / 2) 100) ''A'' ''A'' 100 (const_rng (1 / 2))
     = Inr ((Some [''A''], Fin 0), const_rng (1 / 2))
   \<and> \<not> length [''A''] \<le> length (get_all_nodes (graph (init_solver empty_graph 1 1 1 2 (1 / 2) 100)))"
  by (simp add: construct_path_start_is_end init_solver_def empty_graph_def get_all_nodes_def)

text \<open>
  Claim C5, amended. Every path the path constructor returns as complete leads from the
  start node to the end node, joins consecutive nodes by a channel of the topology with
  liquidity \<open>\<ge>\<close> the payment amount, and visits no node twice; its length is at most the
  node count when \<open>start_node \<noteq> end_node\<close>, and 1 otherwise. The best path that
  \<^verbatim>\<open>solve\<close> returns on a solver as \<^verbatim>\<open>__init__\<close> builds it has all these properties,
  with a length of at most the node count.
\<close>

theorem completed_path_valid:
  "(construct_path s start_node end_node amt g = Inr ((Some p, f), g') \<longrightarrow>
      valid_path (graph s) amt start_node end_node
        (if start_node = end_node then 1 else length (get_all_nodes (graph s))) p)
   \<and> (solve (init_solver gr ants iters a b evap q) start_node end_node amt g =
         Inr ((Some p', f'), s', g'') \<longrightarrow>
      valid_path gr amt start_node end_node (length (get_all_nodes gr)) p')"
proof (intro conjI impI)
  assume c: "construct_path s start_node end_node amt g = Inr ((Some p, f), g')"
  show "valid_path (graph s) amt start_node end_node
        (if start_node = end_node then 1 else length (get_all_nodes (graph s))) p"
  proof (cases "start_node = end_node")
    case True
    with c have "p = [start_node]" by (simp add: construct_path_start_is_end)
    with True show ?thesis by (simp add: valid_path_def)
  next
    case False
    with construct_path_valid_distinct_ends [OF c False] show ?thesis by simp
  qed
next
  assume "solve (init_solver gr ants iters a b evap q) start_node end_node amt g =
         Inr ((Some p', f'), s', g'')"
  then show "valid_path gr amt start_node end_node (length (get_all_nodes gr)) p'"
    by (rule solve_fresh_best_valid)
qed

text \<open>
  The hypotheses of the amended C5 hold on the two-node topology, for the path
  A \<rightarrow> B.
\<close>

theorem completed_path_valid_witness:
  "construct_path (initialize_pheromones (init_solver (two_node_graph 1 (1 / 1000)) 1 1 1 2 (1 / 2) 100))
      ''A'' ''B'' 100 (const_rng (1 / 2))
     = Inr ((Some [''A'', ''B''], Fin (11 / 10)), const_rng (1 / 2))
   \<and> valid_path (two_node_graph 1 (1 / 1000)) 100 ''A'' ''B'' 2 [''A'', ''B'']
   \<and> (\<exists>s'. solve (init_solver (two_node_graph 1 (1 / 1000)) 1 1 1 2 (1 / 2) 100)
              ''A'' ''B'' 100 (const_rng (1 / 2))
            = Inr ((Some [''A'', ''B''], Fin (11 / 10)), s', const_rng (1 / 2)))"
proof -
  let ?fresh = "init_solver (two_node_graph 1 (1 / 1000)) 1 1 1 2 (1 / 2) 100"
  let ?s = "initialize_pheromones ?fresh"
  have gr: "graph ?fresh = two_node_graph 1 (1 / 1000)" by (simp add: init_solver_def)
  have gr': "graph ?s = two_node_graph 1 (1 / 1000)"
    by (simp add: initialize_pheromones_def init_solver_def)
  have lv: "0 < level_of ?s ''A'' (channel_AB 1 (1 / 1000))"
    by (simp add: level_of_fresh [OF gr])
  have c: "construct_path ?s ''A'' ''B'' 100 (const_rng (1 / 2))
     = Inr ((Some [''A'', ''B''], Fin (11 / 10)), const_rng (1 / 2))"
    using construct_path_two_node_AB [OF gr' lv, of "const_rng (1 / 2)"]
    by (simp add: uniform_const_rng)
  from solve_two_node_AB [of 1 "1 / 1000" 1 2 "1 / 2" 100 "const_rng (1 / 2)"]
  obtain s' where sv: "solve ?fresh ''A'' ''B'' 100 (const_rng (1 / 2))
            = Inr ((Some [''A'', ''B''], Fin (11 / 10)), s', const_rng (1 / 2))"
    by (auto simp: uniform_const_rng)
  from completed_path_valid [of ?s "''A''" "''B''" 100 "const_rng (1 / 2)" "[''A'', ''B'']"
      "Fin (11 / 10)" "const_rng (1 / 2)" "two_node_graph 1 (1 / 1000)" 1 1 1 2 "1 / 2" 100
      "[''A'', ''B'']" "Fin (11 / 10)" s' "const_rng (1 / 2)"] c sv
  have "valid_path (two_node_graph 1 (1 / 1000)) 100 ''A'' ''B'' 2 [''A'', ''B'']"
    by (simp add: two_node_graph_nodes numeral_2_eq_2)
  with c sv show ?thesis by blast
qed

section \<open>Independence of the order in which the nodes are enumerated\<close>

lemma relist_fields [simp]:
  "num_ants (relist ns s) = num_ants s" "iterations (relist ns s) = iterations s"
  "alpha (relist ns s) = alpha s" "beta (relist ns s) = beta s"
  "evaporation_rate (relist ns s) = evaporation_rate s" "Q (relist ns s) = Q s"
  "pheromones (relist ns s) = pheromones s" "best_path (relist ns s) = best_path s"
  "best_path_fee (relist ns s) = best_path_fee s"
  "get_outgoing_channels (graph (relist ns s)) n = get_outgoing_channels (graph s) n"
  "get_all_nodes (graph (relist ns s)) = ns"
  by (simp_all add: relist_def get_outgoing_channels_def get_all_nodes_def)

lemma relist_update:
  "relist ns (s\<lparr>best_path := p, best_path_fee := f\<rparr>) =
     (relist ns s)\<lparr>best_path := p, best_path_fee := f\<rparr>"
  "relist ns (s\<lparr>pheromones := ph\<rparr>) = (relist ns s)\<lparr>pheromones := ph\<rparr>"
  by (simp_all add: relist_def)

lemma weigh_relist:
  "weigh (relist ns s) cur vis amt chs probs tot = weigh s cur vis amt chs probs tot"
  by (induction chs arbitrary: probs tot) (simp_all add: Let_def split: sum.splits)

lemma select_next_channel_relist:
  "select_next_channel (relist ns s) cur vis amt g = select_next_channel s cur vis amt g"
  by (simp add: select_next_channel_def weigh_relist)

lemma construct_loop_relist:
  "construct_loop (relist ns s) en amt m path cur tot g = construct_loop s en amt m path cur tot g"
proof (induction s en amt m path cur tot g rule: construct_loop.induct)
  case (1 s en amt m path cur tot g)
  show ?case
    apply (subst construct_loop.simps)
    apply (subst (2) construct_loop.simps)
    apply (simp add: select_next_channel_relist del: construct_loop.simps
        split: sum.splits prod.splits option.splits)
    using "1.IH" apply auto
    done
qed

lemma construct_path_relist:
  "length ns = length (get_all_nodes (graph s)) \<Longrightarrow>
     construct_path (relist ns s) st en amt g = construct_path s st en amt g"
  unfolding construct_path_def by (simp add: construct_loop_relist del: construct_loop.simps)

lemma run_ants_relist:
  "length ns = length (get_all_nodes (graph s)) \<Longrightarrow>
     run_ants n (relist ns s) st en amt ap g = relist_ants ns (run_ants n s st en amt ap g)"
proof (induction n arbitrary: s ap g)
  case 0 then show ?case by (simp add: relist_ants_def)
next
  case (Suc n)
  let ?s1 = "\<lambda>path f. s\<lparr>best_path := Some path, best_path_fee := f\<rparr>"
  have a: "\<And>path f. length ns = length (get_all_nodes (graph (?s1 path f)))"
    using Suc.prems by simp
  have b: "\<And>path f ap g. run_ants n ((relist ns s)\<lparr>best_path := Some path, best_path_fee := f\<rparr>)
              st en amt ap g = relist_ants ns (run_ants n (?s1 path f) st en amt ap g)"
    using Suc.IH [OF a] by (simp add: relist_update)
  show ?case
    by (simp add: construct_path_relist [OF Suc.prems] Suc.IH [OF Suc.prems] b
        relist_ants_def split: sum.splits prod.splits option.splits)
qed

lemma update_pheromones_relist:
  "update_pheromones (relist ns s) ap =
     (case update_pheromones s ap of Inl e \<Rightarrow> Inl e | Inr s' \<Rightarrow> Inr (relist ns s'))"
  by (simp add: update_pheromones_def relist_update split: sum.splits)

lemma run_iteration_relist:
  "length ns = length (get_all_nodes (graph s)) \<Longrightarrow>
     run_iteration (relist ns s) st en amt g = relist_run ns (run_iteration s st en amt g)"
  by (simp add: run_iteration_def run_ants_relist relist_ants_def relist_run_def
      update_pheromones_relist split: sum.splits prod.splits)

lemma run_iterations_relist:
  "length ns = length (get_all_nodes (graph s)) \<Longrightarrow>
     run_iterations n (relist ns s) st en amt g = relist_run ns (run_iterations n s st en amt g)"
proof (induction n arbitrary: s g)
  case 0 then show ?case by (simp add: relist_run_def)
next
  case (Suc n)
  show ?case
  proof (cases "run_iteration s st en amt g")
    case (Inl e)
    then show ?thesis by (simp add: run_iteration_relist [OF Suc.prems] relist_run_def)
  next
    case (Inr r)
    obtain s1 g1 where r: "r = (s1, g1)" by (cases r)
    from run_iteration_config [OF Inr [unfolded r]] Suc.prems
    have "length ns = length (get_all_nodes (graph s1))" by (simp add: same_config_def)
    from Suc.IH [OF this] Inr r show ?thesis
      by (simp add: run_iteration_relist [OF Suc.prems] relist_run_def)
  qed
qed

lemma init_channels_eq:
  "init_channels chs ph =
     (\<lambda>e. if e \<in> (\<lambda>ch. (source ch, destination ch)) ` set chs then Some 1 else ph e)"
  unfolding init_channels_def
  by (induction chs arbitrary: ph) (auto simp: fun_eq_iff)

lemma init_nodes_eq:
  "fold (\<lambda>n m. init_channels (get_outgoing_channels gr n) m) ns ph =
     (\<lambda>e. if e \<in> (\<Union>n \<in> set ns. (\<lambda>ch. (source ch, destination ch)) `
                      set (get_outgoing_channels gr n))
          then Some 1 else ph e)"
  by (induction ns arbitrary: ph) (auto simp: fun_eq_iff init_channels_eq)

lemma initialize_pheromones_relist:
  "set ns = set (get_all_nodes (graph s)) \<Longrightarrow>
     initialize_pheromones (relist ns s) = relist ns (initialize_pheromones s)"
  by (simp add: initialize_pheromones_def init_nodes_eq) (simp add: relist_def)

lemma solve_relist:
  assumes "set ns = set (get_all_nodes (graph s))" "distinct ns" "distinct (get_all_nodes (graph s))"
  shows "result_of (solve (relist ns s) st en amt g) = result_of (solve s st en amt g)"
proof -
  from assms have "length ns = length (get_all_nodes (graph s))"
    by (metis distinct_card)
  then have "length ns = length (get_all_nodes (graph (initialize_pheromones s)))"
    by (simp add: initialize_pheromones_def)
  from run_iterations_relist [OF this] show ?thesis
    by (simp add: solve_def initialize_pheromones_relist [OF assms(1)] relist_run_def
        result_of_def split: sum.splits prod.splits)
qed

text \<open>
  Claim C8. \<^verbatim>\<open>solve\<close> is a function of the topology, the parameters and the
  sequence of random draws, and the one order Python leaves open, the order in which the
  node set is enumerated, has no influence: two runs on new solvers with the same
  channels, the same node set, the same parameters and the same random draws return the
  same best path and fee (or raise the same exception).
\<close>

theorem solve_deterministic:
  assumes "set ns1 = set ns2" and "distinct ns1" and "distinct ns2"
  shows "result_of (solve (init_solver \<lparr>nodes = ns1, channels = cs\<rparr> ants iters a b evap q)
                      start_node end_node amt g) =
         result_of (solve (init_solver \<lparr>nodes = ns2, channels = cs\<rparr> ants iters a b evap q)
                      start_node end_node amt g)"
proof -
  let ?s2 = "init_solver \<lparr>nodes = ns2, channels = cs\<rparr> ants iters a b evap q"
  have "init_solver \<lparr>nodes = ns1, channels = cs\<rparr> ants iters a b evap q = relist ns1 ?s2"
    by (simp add: init_solver_def relist_def)
  moreover have "result_of (solve (relist ns1 ?s2) start_node end_node amt g) = result_of (solve ?s2 start_node end_node amt g)"
    using solve_relist [of ns1 ?s2 start_node end_node amt g] assms
    by (simp add: init_solver_def get_all_nodes_def)
  ultimately show ?thesis by simp
qed

text \<open>
  The hypotheses of C8 hold for the enumerations A, B and B, A of the two-node topology;
  both runs return the path A \<rightarrow> B with fee 11/10.
\<close>

theorem solve_deterministic_witness:
  "set [''A'', ''B''] = set [''B'', ''A''] \<and> distinct [''A'', ''B''] \<and> distinct [''B'', ''A'']
   \<and> result_of (solve (init_solver
         \<lparr>nodes = [''B'', ''A''], channels = [''A'' \<mapsto> [channel_AB 1 (1 / 1000)]]\<rparr>
         1 1 1 2 (1 / 2) 100) ''A'' ''B'' 100 (const_rng (1 / 2)))
     = Inr (Some [''A'', ''B''], Fin (11 / 10))"
proof -
  have h: "set [''A'', ''B''] = set [''B'', ''A'']" "distinct [''A'', ''B'']"
    "distinct [''B'', ''A'']" by auto
  have g: "\<lparr>nodes = [''A'', ''B''], channels = [''A'' \<mapsto> [channel_AB 1 (1 / 1000)]]\<rparr>
            = two_node_graph 1 (1 / 1000)"
    by (simp add: two_node_graph_def add_channel_def empty_graph_def add_node_def channel_AB_def)
  from solve_two_node_AB [of 1 "1 / 1000" 1 2 "1 / 2" 100 "const_rng (1 / 2)"]
  have r: "result_of (solve (init_solver (two_node_graph 1 (1 / 1000)) 1 1 1 2 (1 / 2) 100)
              ''A'' ''B'' 100 (const_rng (1 / 2))) = Inr (Some [''A'', ''B''], Fin (11 / 10))"
    by (auto simp: result_of_def)
  from solve_deterministic [OF h, of "[''A'' \<mapsto> [channel_AB 1 (1 / 1000)]]" 1 1 1 2 "1 / 2" 100
      "''A''" "''B''" 100 "const_rng (1 / 2)"] r h
  show ?thesis by (simp add: g)
qed

end
